theory Spec2Isabelle
  imports Main
begin

section \<open>JavaScript values as produced by JSON.parse\<close>

text \<open>
  The worker (src/worker.js) reads server-sent-event lines, parses the text after the
  \<open>data: \<close> marker with JSON.parse and works on the resulting value.  A value is one of
  the JSON kinds, or \<open>Undefined\<close>, which is what reading a missing property gives.
  An object is the list of its own properties in enumeration order.  A number is kept
  as the text JavaScript prints for it (\<open>0.6\<close>, \<open>9024\<close>, \<open>0\<close>); the only thing the
  worker does with a number is to test it for zero, print it, or pass it on.
  Text is a \<open>string\<close>, one \<open>char\<close> for each code unit; a \<open>char\<close> holds the code
  units 0 to 255.
\<close>

datatype jsval =
    Undefined
  | JNull
  | JBool bool
  | JNum string
  | JStr string
  | JArr "jsval list"
  | JObj "(string \<times> jsval) list"

datatype error = SyntaxError | TypeError | RangeError

abbreviation NL :: char where "NL \<equiv> CHR 0x0A"

text \<open>Truthiness (the test made by \<open>if (v)\<close>, \<open>v && w\<close> and \<open>v || w\<close>).\<close>

fun truthy :: "jsval \<Rightarrow> bool" where
  "truthy Undefined = False"
| "truthy JNull = False"
| "truthy (JBool b) = b"
| "truthy (JNum s) = (s \<noteq> ''0'')"
| "truthy (JStr s) = (s \<noteq> [])"
| "truthy (JArr xs) = True"
| "truthy (JObj kvs) = True"

text \<open>\<open>Array.prototype.join\<close> over the texts of the elements; the first element that raises ends it.\<close>

fun join_comma :: "(error + string) list \<Rightarrow> error + string" where
  "join_comma [] = Inr []"
| "join_comma (Inl e # rs) = Inl e"
| "join_comma [Inr s] = Inr s"
| "join_comma (Inr s # r # rs) =
     (case join_comma (r # rs) of Inl e \<Rightarrow> Inl e | Inr t \<Rightarrow> Inr (s @ '','' @ t))"

text \<open>
  The text a value becomes when it is added to a string (\<open>'<think>\n' + v\<close>).  An
  object is converted by its \<open>toString\<close>: the one it inherits gives
  \<open>[object Object]\<close>; an own property \<open>toString\<close> hides that one and, coming from
  JSON, cannot be called, so the conversion raises TypeError.  An array is the join of
  its elements, null standing for the empty text.
\<close>

fun to_str :: "jsval \<Rightarrow> error + string" where
  "to_str Undefined = Inr ''undefined''"
| "to_str JNull = Inr ''null''"
| "to_str (JBool b) = Inr (if b then ''true'' else ''false'')"
| "to_str (JNum s) = Inr s"
| "to_str (JStr s) = Inr s"
| "to_str (JArr xs) =
     join_comma (map (\<lambda>x. if x = JNull \<or> x = Undefined then Inr [] else to_str x) xs)"
| "to_str (JObj kvs) =
     (if map_of kvs ''toString'' = None then Inr ''[object Object]'' else Inl TypeError)"

text \<open>
  \<open>v.k\<close> for a value \<open>v\<close> that is neither null nor undefined, and for the property
  names the worker reads (\<open>choices\<close>, \<open>delta\<close>, \<open>reasoning_content\<close>, \<open>content\<close>,
  \<open>message\<close>, ...): none of them is defined on the prototypes of arrays, strings,
  numbers or booleans, so only an object can have one.
\<close>

fun field :: "jsval \<Rightarrow> string \<Rightarrow> jsval" where
  "field (JObj kvs) k = (case map_of kvs k of None \<Rightarrow> Undefined | Some v \<Rightarrow> v)"
| "field _ k = Undefined"

text \<open>\<open>v[0]\<close> for a value \<open>v\<close> that is neither null nor undefined.\<close>

fun index0 :: "jsval \<Rightarrow> jsval" where
  "index0 (JArr xs) = (case xs of [] \<Rightarrow> Undefined | x # _ \<Rightarrow> x)"
| "index0 (JObj kvs) = (case map_of kvs ''0'' of None \<Rightarrow> Undefined | Some v \<Rightarrow> v)"
| "index0 (JStr s) = (case s of [] \<Rightarrow> Undefined | c # _ \<Rightarrow> JStr [c])"
| "index0 _ = Undefined"

text \<open>Optional chaining \<open>v?.x\<close>: undefined when \<open>v\<close> is null or undefined.\<close>

definition opt_chain :: "jsval \<Rightarrow> (jsval \<Rightarrow> jsval) \<Rightarrow> jsval" where
  "opt_chain v f = (if v = Undefined \<or> v = JNull then Undefined else f v)"

text \<open>Writing and deleting an own property of an object.\<close>

fun obj_set :: "string \<Rightarrow> jsval \<Rightarrow> (string \<times> jsval) list \<Rightarrow> (string \<times> jsval) list" where
  "obj_set k v [] = [(k, v)]"
| "obj_set k v ((k', v') # kvs) =
     (if k' = k then (k, v) # kvs else (k', v') # obj_set k v kvs)"

definition obj_delete :: "string \<Rightarrow> (string \<times> jsval) list \<Rightarrow> (string \<times> jsval) list" where
  "obj_delete k kvs = filter (\<lambda>kv. fst kv \<noteq> k) kvs"

text \<open>
  \<open>v.k = w\<close> in module (strict) code: an object gets the property; an array gets a
  named property that JSON.stringify does not print; a primitive raises TypeError.
\<close>

fun assign :: "string \<Rightarrow> jsval \<Rightarrow> jsval \<Rightarrow> error + jsval" where
  "assign k w (JObj kvs) = Inr (JObj (obj_set k w kvs))"
| "assign k w (JArr xs) = Inr (JArr xs)"
| "assign k w _ = Inl TypeError"

fun delete_prop :: "string \<Rightarrow> jsval \<Rightarrow> jsval" where
  "delete_prop k (JObj kvs) = JObj (obj_delete k kvs)"
| "delete_prop k v = v"

fun set_prop :: "string \<Rightarrow> jsval \<Rightarrow> jsval \<Rightarrow> jsval" where
  "set_prop k w (JObj kvs) = JObj (obj_set k w kvs)"
| "set_prop k w v = v"

fun set_index0 :: "jsval \<Rightarrow> jsval \<Rightarrow> jsval" where
  "set_index0 w (JArr (x # xs)) = JArr (w # xs)"
| "set_index0 w (JObj kvs) = JObj (obj_set ''0'' w kvs)"
| "set_index0 w v = v"

section \<open>The delta reasoning merger (worker.js, lines 187 to 221)\<close>

text \<open>\<open>data.choices?.[0]?.delta\<close>; reading \<open>choices\<close> of null raises TypeError.\<close>

definition choice0_of :: "jsval \<Rightarrow> jsval" where
  "choice0_of data = opt_chain (field data ''choices'') index0"

definition delta_of :: "jsval \<Rightarrow> error + jsval" where
  "delta_of data =
     (if data = JNull \<or> data = Undefined then Inl TypeError
      else Inr (opt_chain (choice0_of data) (\<lambda>c. field c ''delta'')))"

text \<open>
  The objects are mutated in place in the source; \<open>set_delta d data\<close> is \<open>data\<close> after
  the object at \<open>data.choices[0].delta\<close> has become \<open>d\<close>.
\<close>

definition set_delta :: "jsval \<Rightarrow> jsval \<Rightarrow> jsval" where
  "set_delta d data =
     set_prop ''choices''
       (set_index0 (set_prop ''delta'' d (choice0_of data)) (field data ''choices'')) data"

definition think_open :: string where
  "think_open = ''<think>'' @ [NL]"

definition think_close :: string where
  "think_close = [NL] @ ''</think>'' @ [NL, NL]"

text \<open>
  Lines 192 to 206: \<open>combinedContent\<close>, or the exception a concatenation raises, and
  \<open>reasoningStarted\<close> as it is at that point (each assignment to it follows the
  concatenation of its branch).  In the last branch \<open>combinedContent\<close> is still the
  empty string, so \<open>+=\<close> is concatenation.
\<close>

definition combine :: "bool \<Rightarrow> jsval \<Rightarrow> jsval \<Rightarrow> (error + jsval) \<times> bool" where
  "combine reasoningStarted reasoning content =
     (case
        (if truthy reasoning \<and> \<not> reasoningStarted then
           (case to_str reasoning of
              Inl e \<Rightarrow> (Inl e, reasoningStarted)
            | Inr t \<Rightarrow> (Inr (JStr (think_open @ t)), True))
         else if truthy reasoning then (Inr reasoning, reasoningStarted)
         else (Inr (JStr []), reasoningStarted))
      of
        (Inl e, s1) \<Rightarrow> (Inl e, s1)
      | (Inr c1, s1) \<Rightarrow>
          if truthy content \<and> s1 then
            (case to_str content of
               Inl e \<Rightarrow> (Inl e, s1)
             | Inr t \<Rightarrow>
                 (case to_str c1 of
                    Inl e \<Rightarrow> (Inl e, s1)
                  | Inr u \<Rightarrow> (Inr (JStr (u @ think_close @ t)), False)))
          else if truthy content then
            (case to_str content of
               Inl e \<Rightarrow> (Inl e, s1)
             | Inr t \<Rightarrow>
                 (case to_str c1 of
                    Inl e \<Rightarrow> (Inl e, s1)
                  | Inr u \<Rightarrow> (Inr (JStr (u @ t)), s1)))
          else (Inr c1, s1))"

text \<open>
  Lines 187 to 221 for one parsed payload: the payload as it is serialised afterwards
  (or the exception raised) and the new \<open>reasoningStarted\<close>.
\<close>

definition transform :: "bool \<Rightarrow> bool \<Rightarrow> jsval \<Rightarrow> (error + jsval) \<times> bool" where
  "transform display reasoningStarted data =
     (case delta_of data of
        Inl e \<Rightarrow> (Inl e, reasoningStarted)
      | Inr delta \<Rightarrow>
          if \<not> truthy delta then (Inr data, reasoningStarted)
          else
            let reasoning = field delta ''reasoning_content'';
                content = field delta ''content''
            in
              if display then
                (case combine reasoningStarted reasoning content of
                   (Inl e, started) \<Rightarrow> (Inl e, started)
                 | (Inr combinedContent, started) \<Rightarrow>
                     if truthy combinedContent then
                       (case assign ''content'' combinedContent delta of
                          Inl e \<Rightarrow> (Inl e, started)
                        | Inr d \<Rightarrow>
                            (Inr (set_delta (delete_prop ''reasoning_content'' d) data), started))
                     else (Inr data, started))
              else
                (case assign ''content'' (if truthy content then content else JStr []) delta of
                   Inl e \<Rightarrow> (Inl e, reasoningStarted)
                 | Inr d \<Rightarrow>
                     (Inr (set_delta (delete_prop ''reasoning_content'' d) data),
                      reasoningStarted)))"

text \<open>
  A run of the merger over the payloads of one exchange, in order, threading
  \<open>reasoningStarted\<close>; a payload whose transformation raises is left out, as the line is
  then forwarded unparsed.
\<close>

fun merge_stream :: "bool \<Rightarrow> bool \<Rightarrow> jsval list \<Rightarrow> jsval list \<times> bool" where
  "merge_stream display started [] = ([], started)"
| "merge_stream display started (d # ds) =
     (case transform display started d of
        (Inl e, s) \<Rightarrow> merge_stream display s ds
      | (Inr d', s) \<Rightarrow> (let (out, s') = merge_stream display s ds in (d' # out, s')))"

text \<open>The text a client appends for one delivered payload: its delta's content string.\<close>

definition content_text :: "jsval \<Rightarrow> string" where
  "content_text data =
     (case delta_of data of
        Inl e \<Rightarrow> []
      | Inr delta \<Rightarrow> (case field delta ''content'' of JStr s \<Rightarrow> s | _ \<Rightarrow> []))"

definition merged_text :: "bool \<Rightarrow> jsval list \<Rightarrow> string" where
  "merged_text display ds = concat (map content_text (fst (merge_stream display False ds)))"

text \<open>The reasoning text of a payload, read the same way.\<close>

definition reasoning_text :: "jsval \<Rightarrow> string" where
  "reasoning_text data =
     (case delta_of data of
        Inl e \<Rightarrow> []
      | Inr delta \<Rightarrow> (case field delta ''reasoning_content'' of JStr s \<Rightarrow> s | _ \<Rightarrow> []))"

definition pieces :: "jsval \<Rightarrow> string \<times> string" where
  "pieces data = (reasoning_text data, content_text data)"

text \<open>
  A field that holds text or nothing: a string, or a value that tests false (a missing
  field, null).  A textual payload is one that parses to a value other than null and
  whose delta, if any, has such reasoning and answer fields.
\<close>

definition textual :: "jsval \<Rightarrow> bool" where
  "textual v = (case v of JStr s \<Rightarrow> True | _ \<Rightarrow> \<not> truthy v)"

definition textual_payload :: "jsval \<Rightarrow> bool" where
  "textual_payload data =
     (case delta_of data of
        Inl e \<Rightarrow> False
      | Inr delta \<Rightarrow>
          textual (field delta ''reasoning_content'') \<and> textual (field delta ''content''))"

text \<open>
  The state table of the merger as the specification writes it (section 4.2), row by
  row, on the reasoning text \<open>r\<close> and the answer text \<open>a\<close> of one payload (empty when
  the payload has none): the content emitted and the next state.  \<open>spec_table_merge\<close>
  is the concatenated content of a sequence of payloads.
\<close>

definition spec_table_step :: "bool \<Rightarrow> string \<times> string \<Rightarrow> string \<times> bool" where
  "spec_table_step opn p =
     (let r = fst p; a = snd p in
      if \<not> opn \<and> r \<noteq> [] \<and> a = [] then (think_open @ r, True)
      else if \<not> opn \<and> r = [] \<and> a \<noteq> [] then (a, False)
      else if \<not> opn \<and> r \<noteq> [] \<and> a \<noteq> [] then (think_open @ r @ think_close @ a, False)
      else if opn \<and> r \<noteq> [] \<and> a = [] then (r, True)
      else if opn \<and> a \<noteq> [] then (r @ think_close @ a, False)
      else ([], opn))"

fun spec_table_merge :: "bool \<Rightarrow> (string \<times> string) list \<Rightarrow> string" where
  "spec_table_merge opn [] = []"
| "spec_table_merge opn (p # ps) =
     fst (spec_table_step opn p) @ spec_table_merge (snd (spec_table_step opn p)) ps"

text \<open>The payload \<open>{choices: [{delta: {...}}]}\<close> with the given delta fields.\<close>

definition payload :: "(string \<times> jsval) list \<Rightarrow> jsval" where
  "payload fields = JObj [(''choices'', JArr [JObj [(''delta'', JObj fields)]])]"

section \<open>Text operations used by the stream pump\<close>

abbreviation DQ :: char where "DQ \<equiv> CHR 0x22"

text \<open>
  The characters \<open>String.prototype.trim\<close> removes, among the code units a \<open>char\<close> can
  hold: tab, line feed, vertical tab, form feed, carriage return, space, no-break space.
\<close>

definition is_ws :: "char \<Rightarrow> bool" where
  "is_ws c = (c \<in> set [CHR 0x09, CHR 0x0A, CHR 0x0B, CHR 0x0C, CHR 0x0D, CHR 0x20, CHR 0xA0])"

definition trim :: "string \<Rightarrow> string" where
  "trim s = rev (dropWhile is_ws (rev (dropWhile is_ws s)))"

definition startsWith :: "string \<Rightarrow> string \<Rightarrow> bool" where
  "startsWith p s = (take (length p) s = p)"

fun str_includes :: "string \<Rightarrow> string \<Rightarrow> bool" where
  "str_includes p [] = (p = [])"
| "str_includes p (c # s) = (startsWith p (c # s) \<or> str_includes p s)"

text \<open>\<open>s.split('\n')\<close>: never empty; the last element is the text after the last newline.\<close>

fun split_nl :: "string \<Rightarrow> string list" where
  "split_nl [] = [[]]"
| "split_nl (c # s) =
     (if c = NL then [] # split_nl s
      else (case split_nl s of [] \<Rightarrow> [[c]] | l # ls \<Rightarrow> (c # l) # ls))"

definition data_marker :: string where
  "data_marker = ''data: ''"

definition done_token :: string where
  "done_token = ''[DONE]''"

definition done_frame :: string where
  "done_frame = ''data: [DONE]'' @ [NL, NL]"

text \<open>Line 237: \<open>`data: {"error": "${error.message}"}\n\n`\<close>.\<close>

definition error_frame :: "string \<Rightarrow> string" where
  "error_frame m =
     ''data: {'' @ [DQ] @ ''error'' @ [DQ] @ '': '' @ [DQ] @ m @ [DQ] @ ''}'' @ [NL, NL]"

section \<open>The downstream writer\<close>

text \<open>
  A value a rejected read or write raises, as the handler at line 233 sees it.
  \<open>Raised m\<close> is a value that is neither null nor undefined, \<open>m\<close> being the text
  \<open>${error.message}\<close> gives for it (the message of an Error; \<open>undefined\<close> for a value
  without one).  \<open>Nullish\<close> is null or undefined: reading its \<open>message\<close> raises.
\<close>

datatype thrown = Raised string | Nullish

text \<open>
  The writable side of the TransformStream, seen from the pump.  \<open>budget\<close> is the number
  of writes that will still be accepted (\<open>None\<close>: every write is accepted); once the
  stream has rejected a write (the client went away) it rejects every later one, with
  the value \<open>reason\<close>.  \<open>close_rejects\<close> says whether \<open>close()\<close> will reject.
  \<open>events\<close> records, in order, what the pump did to the writer.
\<close>

datatype event = Wrote string | WriteFailed string | CloseOk | CloseFailed

record writer =
  budget :: "nat option"
  reason :: thrown
  close_rejects :: bool
  events :: "event list"

definition new_writer :: "nat option \<Rightarrow> thrown \<Rightarrow> bool \<Rightarrow> writer" where
  "new_writer b m c = \<lparr>budget = b, reason = m, close_rejects = c, events = []\<rparr>"

text \<open>\<open>await writer.write(encoder.encode(s))\<close>: \<open>Some x\<close> is the rejection, with value \<open>x\<close>.\<close>

definition writer_write :: "string \<Rightarrow> writer \<Rightarrow> thrown option \<times> writer" where
  "writer_write s w =
     (case budget w of
        None \<Rightarrow> (None, w\<lparr>events := events w @ [Wrote s]\<rparr>)
      | Some n \<Rightarrow>
          (case n of
             0 \<Rightarrow> (Some (reason w), w\<lparr>events := events w @ [WriteFailed s]\<rparr>)
           | Suc k \<Rightarrow> (None, w\<lparr>budget := Some k, events := events w @ [Wrote s]\<rparr>)))"

text \<open>Lines 243 to 247: \<open>close()\<close> inside its own try; a rejection is only logged.\<close>

definition writer_close :: "writer \<Rightarrow> writer" where
  "writer_close w = w\<lparr>events := events w @ [if close_rejects w then CloseFailed else CloseOk]\<rparr>"

section \<open>The stream pump (worker.js, lines 143 to 249)\<close>

text \<open>
  The platform functions and the display switch.  \<open>parse\<close> is JSON.parse (\<open>None\<close>: it
  raises SyntaxError), \<open>stringify\<close> is JSON.stringify, \<open>display\<close> is \<open>SHOW_REASONING\<close>.
\<close>

record config =
  display :: bool
  parse :: "string \<Rightarrow> jsval option"
  stringify :: "jsval \<Rightarrow> string"

definition SHOW_REASONING :: bool where
  "SHOW_REASONING = True"

text \<open>
  Lines 175 to 230, the body of the loop over complete lines.  The state is
  \<open>reasoningStarted\<close> and the writer; the first component of the result is \<open>Some x\<close> when
  an exception with value \<open>x\<close> leaves the body (only a rejected write can).
\<close>

definition process_line ::
  "config \<Rightarrow> string \<Rightarrow> bool \<times> writer \<Rightarrow> thrown option \<times> bool \<times> writer" where
  "process_line cfg line st =
     (let (started, w) = st in
      if trim line = [] then (None, started, w)
      else if startsWith data_marker line then
        if str_includes done_token line then
          (let (r, w') = writer_write (line @ [NL, NL]) w in (r, started, w'))
        else
          (case parse cfg (drop 6 line) of
             None \<Rightarrow> (let (r, w') = writer_write (line @ [NL, NL]) w in (r, started, w'))
           | Some data \<Rightarrow>
               (case transform (display cfg) started data of
                  (Inl e, s) \<Rightarrow> (let (r, w') = writer_write (line @ [NL, NL]) w in (r, s, w'))
                | (Inr data', s) \<Rightarrow>
                    (case writer_write (data_marker @ stringify cfg data' @ [NL, NL]) w of
                       (None, w') \<Rightarrow> (None, s, w')
                     | (Some m, w') \<Rightarrow>
                         (let (r, w'') = writer_write (line @ [NL, NL]) w' in (r, s, w'')))))
      else (None, started, w))"

fun process_lines ::
  "config \<Rightarrow> string list \<Rightarrow> bool \<times> writer \<Rightarrow> thrown option \<times> bool \<times> writer" where
  "process_lines cfg [] st = (None, st)"
| "process_lines cfg (l # ls) st =
     (case process_line cfg l st of
        (None, st') \<Rightarrow> process_lines cfg ls st'
      | (Some m, st') \<Rightarrow> (Some m, st'))"

text \<open>
  Lines 170 to 231 for one chunk, given as the text the streaming decoder returns for
  it.  The state is the buffer, \<open>reasoningStarted\<close> and the writer.
\<close>

definition feed ::
  "config \<Rightarrow> string \<Rightarrow> string \<times> bool \<times> writer \<Rightarrow> thrown option \<times> string \<times> bool \<times> writer" where
  "feed cfg chunk st =
     (let (buffer, st1) = st;
          lines = split_nl (buffer @ chunk);
          (r, st2) = process_lines cfg (butlast lines) st1
      in (r, last lines, st2))"

text \<open>Lines 155 to 163: a write that is rejected here is only logged.\<close>

definition flush_line :: "string \<Rightarrow> writer \<Rightarrow> writer" where
  "flush_line line w =
     (if startsWith data_marker (trim line) \<and> \<not> str_includes done_token line
      then snd (writer_write (line @ [NL, NL]) w) else w)"

text \<open>Lines 151 to 168, the end of the input.\<close>

definition finish :: "string \<times> bool \<times> writer \<Rightarrow> thrown option \<times> string \<times> bool \<times> writer" where
  "finish st =
     (let (buffer, started, w) = st;
          w1 = (if trim buffer \<noteq> [] then fold flush_line (split_nl buffer) w else w);
          (r, w2) = writer_write done_frame w1
      in (r, buffer, started, w2))"

text \<open>
  The read loop (lines 148 to 232).  The upstream body is the list of its chunks and the
  way it ends: \<open>None\<close> when \<open>read()\<close> reports \<open>done\<close>, \<open>Some x\<close> when it rejects with
  the value \<open>x\<close>.
\<close>

fun read_loop ::
  "config \<Rightarrow> string list \<Rightarrow> thrown option \<Rightarrow> string \<times> bool \<times> writer
     \<Rightarrow> thrown option \<times> string \<times> bool \<times> writer" where
  "read_loop cfg [] ending st = (case ending of None \<Rightarrow> finish st | Some m \<Rightarrow> (Some m, st))"
| "read_loop cfg (chunk # chunks) ending st =
     (case feed cfg chunk st of
        (None, st') \<Rightarrow> read_loop cfg chunks ending st'
      | (Some m, st') \<Rightarrow> (Some m, st'))"

text \<open>
  The part of the loop's result that the code after it can still see: the exception, if
  any, \<open>reasoningStarted\<close> and the writer (the buffer is not read again).
\<close>

definition outcome ::
  "thrown option \<times> string \<times> bool \<times> writer \<Rightarrow> thrown option \<times> bool \<times> writer" where
  "outcome x = (fst x, snd (snd x))"

text \<open>
  Lines 233 to 241, the handler of the outer try.  Building the diagnostic frame reads
  \<open>error.message\<close> inside the inner try: for a null or undefined \<open>error\<close> that raises
  before anything is written.
\<close>

definition recover :: "thrown \<Rightarrow> writer \<Rightarrow> writer" where
  "recover x w =
     (case x of
        Nullish \<Rightarrow> w
      | Raised m \<Rightarrow>
          (case writer_write (error_frame m) w of
             (None, w') \<Rightarrow> snd (writer_write done_frame w')
           | (Some e, w') \<Rightarrow> w'))"

text \<open>Lines 143 to 249: the whole asynchronous task, from a fresh buffer and state.\<close>

definition pump :: "config \<Rightarrow> string list \<Rightarrow> thrown option \<Rightarrow> writer \<Rightarrow> writer" where
  "pump cfg chunks ending w =
     (case read_loop cfg chunks ending ([], False, w) of
        (None, buffer, started, w') \<Rightarrow> writer_close w'
      | (Some m, buffer, started, w') \<Rightarrow> writer_close (recover m w'))"

text \<open>
  Line 170 over the whole body: \<open>decoder.decode(value, {stream: true})\<close> for each raw
  chunk in turn.  The decoder is the platform's; it is a function from its state (the
  bytes of an unfinished code point) and a raw chunk to the decoded text and its next
  state.  \<open>pump_raw\<close> is the task on the raw chunks.
\<close>

fun decode_chunks :: "('d \<Rightarrow> 'b list \<Rightarrow> string \<times> 'd) \<Rightarrow> 'd \<Rightarrow> 'b list list \<Rightarrow> string list" where
  "decode_chunks decoder d [] = []"
| "decode_chunks decoder d (v # vs) = (let (s, d') = decoder d v in s # decode_chunks decoder d' vs)"

definition pump_raw ::
  "('d \<Rightarrow> 'b list \<Rightarrow> string \<times> 'd) \<Rightarrow> 'd \<Rightarrow> config \<Rightarrow> 'b list list \<Rightarrow> thrown option
     \<Rightarrow> writer \<Rightarrow> writer" where
  "pump_raw decoder d cfg vs ending w = pump cfg (decode_chunks decoder d vs) ending w"

text \<open>What the client receives: the accepted writes, in order.\<close>

fun received :: "event list \<Rightarrow> string list" where
  "received [] = []"
| "received (Wrote s # es) = s # received es"
| "received (e # es) = received es"

fun is_close :: "event \<Rightarrow> bool" where
  "is_close CloseOk = True"
| "is_close CloseFailed = True"
| "is_close e = False"

fun is_rejection :: "event \<Rightarrow> bool" where
  "is_rejection (WriteFailed s) = True"
| "is_rejection e = False"

section \<open>The non-streaming reshaper (worker.js, lines 269 to 284)\<close>

definition js_or :: "jsval \<Rightarrow> jsval \<Rightarrow> jsval" where
  "js_or v d = (if truthy v then v else d)"

text \<open>Lines 270 to 274: \<open>fullContent\<close> for one choice (\<open>choice.message\<close> of null raises).\<close>

definition full_content :: "bool \<Rightarrow> jsval \<Rightarrow> error + jsval" where
  "full_content disp choice =
     (if choice = JNull \<or> choice = Undefined then Inl TypeError
      else
        let message = field choice ''message'';
            fullContent = js_or (opt_chain message (\<lambda>m. field m ''content'')) (JStr [])
        in
          if disp \<and> truthy (opt_chain message (\<lambda>m. field m ''reasoning_content''))
          then
            (case to_str (field message ''reasoning_content'') of
               Inl e \<Rightarrow> Inl e
             | Inr r \<Rightarrow>
                 (case to_str fullContent of
                    Inl e \<Rightarrow> Inl e
                  | Inr a \<Rightarrow> Inr (JStr (think_open @ r @ think_close @ a))))
          else Inr fullContent)"

text \<open>Lines 269 to 284: the callback of \<open>data.choices.map\<close>.\<close>

definition reshape_choice :: "bool \<Rightarrow> jsval \<Rightarrow> error + jsval" where
  "reshape_choice disp choice =
     (case full_content disp choice of
        Inl e \<Rightarrow> Inl e
      | Inr fullContent \<Rightarrow>
          let message = field choice ''message'' in
          if message = JNull \<or> message = Undefined then Inl TypeError
          else Inr (JObj [(''index'', field choice ''index''),
                          (''message'', JObj [(''role'', field message ''role''),
                                              (''content'', fullContent)]),
                          (''finish_reason'', field choice ''finish_reason'')]))"

text \<open>A complete message \<open>{message: {role, reasoning_content, content}}\<close>.\<close>

definition message_choice :: "string \<Rightarrow> string \<Rightarrow> jsval" where
  "message_choice r a =
     JObj [(''index'', JNum ''0''),
           (''message'', JObj [(''role'', JStr ''assistant''),
                               (''reasoning_content'', JStr r), (''content'', JStr a)])]"

text \<open>The same message streamed: reasoning pieces first, then answer pieces.\<close>

definition reasoning_delta :: "string \<Rightarrow> jsval" where
  "reasoning_delta r = payload [(''reasoning_content'', JStr r)]"

definition content_delta :: "string \<Rightarrow> jsval" where
  "content_delta a = payload [(''content'', JStr a)]"

definition streamed :: "string list \<Rightarrow> string list \<Rightarrow> jsval list" where
  "streamed rs as = map reasoning_delta rs @ map content_delta as"

section \<open>The chat-completions request and the upstream failure (worker.js, lines 92 to 133)\<close>

definition ENABLE_THINKING_MODE :: bool where
  "ENABLE_THINKING_MODE = True"

text \<open>
  Lines 93 to 109: \<open>nimRequest\<close>, the object handed to JSON.stringify, from the parsed
  request body.  Destructuring null raises TypeError.
\<close>

definition build_nim_request :: "jsval \<Rightarrow> error + jsval" where
  "build_nim_request body =
     (if body = JNull \<or> body = Undefined then Inl TypeError
      else Inr (JObj
        ([(''model'', field body ''model''),
          (''messages'', field body ''messages''),
          (''temperature'', js_or (field body ''temperature'') (JNum ''0.6'')),
          (''max_tokens'', js_or (field body ''max_tokens'') (JNum ''9024'')),
          (''stream'', js_or (field body ''stream'') (JBool False))]
         @ (if ENABLE_THINKING_MODE
            then [(''extra_body'',
                   JObj [(''chat_template_kwargs'', JObj [(''thinking'', JBool True)])])]
            else []))))"

text \<open>The decimal text of a status code.\<close>

function dec :: "nat \<Rightarrow> string" where
  "dec n = (if n < 10 then [''0123456789'' ! n] else dec (n div 10) @ [''0123456789'' ! (n mod 10)])"
  by pat_completeness auto
termination
  by (relation "measure id") auto

record response =
  status :: nat
  headers :: "(string \<times> string) list"
  body :: jsval

text \<open>
  \<open>new Response(JSON.stringify(v), {status, headers})\<close>, with the checks the Fetch
  standard gives the constructor: a status outside 200..599 raises RangeError, a body
  with a null-body status raises TypeError.  \<open>body\<close> keeps the value that is serialised.
\<close>

definition null_body_status :: "nat \<Rightarrow> bool" where
  "null_body_status n = (n \<in> set [101, 103, 204, 205, 304])"

definition new_Response :: "jsval \<Rightarrow> nat \<Rightarrow> (string \<times> string) list \<Rightarrow> error + response" where
  "new_Response v st hs =
     (if st < 200 \<or> 599 < st then Inl RangeError
      else if null_body_status st then Inl TypeError
      else Inr \<lparr>status = st, headers = hs, body = v\<rparr>)"

definition corsHeaders :: "(string \<times> string) list" where
  "corsHeaders =
     [(''Access-Control-Allow-Origin'', ''*''),
      (''Access-Control-Allow-Methods'', ''GET, POST, OPTIONS''),
      (''Access-Control-Allow-Headers'', ''Content-Type, Authorization'')]"

definition response_ok :: "nat \<Rightarrow> bool" where
  "response_ok st = (200 \<le> st \<and> st \<le> 299)"

text \<open>
  Lines 121 to 133, after the upstream call has answered with status \<open>st\<close> and body text
  \<open>errorText\<close>: \<open>None\<close> when the status is 2xx and the handler goes on; otherwise the
  response it returns, or the exception the constructor raises.
\<close>

definition upstream_failure :: "nat \<Rightarrow> string \<Rightarrow> (error + response) option" where
  "upstream_failure st errorText =
     (if response_ok st then None
      else Some (new_Response
        (JObj [(''error'',
           JObj [(''message'',
                  js_or (JStr errorText) (JStr ''NIM API error - check if your API key is valid'')),
                 (''type'', JStr ''api_error''),
                 (''code'', JNum (dec st))])])
        st (corsHeaders @ [(''Content-Type'', ''application/json'')])))"

text \<open>
  Lines 297 to 308, the handler of the try around the whole endpoint, given the text of
  the caught error's message: the response it returns.
\<close>

definition caught_response :: "string \<Rightarrow> response" where
  "caught_response m =
     \<lparr>status = 500,
      headers = corsHeaders @ [(''Content-Type'', ''application/json'')],
      body = JObj [(''error'',
               JObj [(''message'', js_or (JStr m) (JStr ''Internal server error'')),
                     (''type'', JStr ''invalid_request_error''),
                     (''code'', JNum ''500'')])]\<rparr>"

text \<open>
  What the caller receives when the upstream status is not 2xx; \<open>message_of\<close> is the
  message text the platform gives its errors.
\<close>

definition failure_reply :: "(error \<Rightarrow> string) \<Rightarrow> nat \<Rightarrow> string \<Rightarrow> response option" where
  "failure_reply message_of st errorText =
     (case upstream_failure st errorText of
        None \<Rightarrow> None
      | Some (Inr r) \<Rightarrow> Some r
      | Some (Inl e) \<Rightarrow> Some (caught_response (message_of e)))"

text \<open>The message a client reads from an error response.\<close>

definition error_message :: "response \<Rightarrow> jsval" where
  "error_message r = field (field (body r) ''error'') ''message''"

section \<open>A small platform for running the pump on concrete input\<close>

text \<open>
  JSON.parse and JSON.stringify on the few texts and values the runs below meet: the
  empty object, the payload \<open>{"choices":[{"delta":{"reasoning_content":"r"}}]}\<close> and
  what the merger makes of it, \<open>{"choices":[{"delta":{"content":"<think>\nr"}}]}\<close>.
  \<open>SHOW_REASONING\<close> is as the source sets it.
\<close>

definition sample_reasoning_json :: string where
  "sample_reasoning_json =
     ''{'' @ [DQ] @ ''choices'' @ [DQ] @ '':[{'' @ [DQ] @ ''delta'' @ [DQ] @ '':{'' @ [DQ]
       @ ''reasoning_content'' @ [DQ] @ '':'' @ [DQ] @ ''r'' @ [DQ] @ ''}}]}''"

definition sample_merged_json :: string where
  "sample_merged_json =
     ''{'' @ [DQ] @ ''choices'' @ [DQ] @ '':[{'' @ [DQ] @ ''delta'' @ [DQ] @ '':{'' @ [DQ]
       @ ''content'' @ [DQ] @ '':'' @ [DQ] @ ''<think>'' @ [CHR 0x5C] @ ''nr'' @ [DQ] @ ''}}]}''"

definition sample_parse :: "string \<Rightarrow> jsval option" where
  "sample_parse s =
     (if s = ''{}'' then Some (JObj [])
      else if s = sample_reasoning_json then Some (payload [(''reasoning_content'', JStr ''r'')])
      else None)"

definition sample_stringify :: "jsval \<Rightarrow> string" where
  "sample_stringify v =
     (if v = JObj [] then ''{}''
      else if v = payload [(''content'', JStr (''<think>'' @ [NL] @ ''r''))] then sample_merged_json
      else [])"

text \<open>A decoder for text that is one byte per character: it holds nothing back.\<close>

definition sample_decode :: "unit \<Rightarrow> string \<Rightarrow> string \<times> unit" where
  "sample_decode d v = (v, d)"

definition sample_config :: config where
  "sample_config = \<lparr>display = SHOW_REASONING, parse = sample_parse, stringify = sample_stringify\<rparr>"

section \<open>Facts about objects and the path to the delta\<close>

lemma map_of_obj_set: "map_of (obj_set k v kvs) k' = (if k' = k then Some v else map_of kvs k')"
  by (induction kvs) auto

lemma map_of_obj_delete: "map_of (obj_delete k kvs) k' = (if k' = k then None else map_of kvs k')"
  by (induction kvs) (auto simp: obj_delete_def)

lemma keys_obj_delete: "k \<notin> fst ` set (obj_delete k kvs)"
  by (auto simp: obj_delete_def)

lemma field_Undefined_cases: "field v k \<noteq> Undefined \<Longrightarrow> \<exists>kvs. v = JObj kvs"
  by (cases v) auto

lemma delta_of_shape:
  assumes "delta_of data = Inr dl" "dl \<noteq> Undefined"
  shows "\<exists>kvs ch ckvs. data = JObj kvs \<and> map_of kvs ''choices'' = Some ch \<and> ch \<noteq> JNull \<and> ch \<noteq> Undefined
          \<and> index0 ch = JObj ckvs \<and> map_of ckvs ''delta'' = Some dl
          \<and> ((\<exists>xs. ch = JArr (JObj ckvs # xs)) \<or> (\<exists>hkvs. ch = JObj hkvs \<and> map_of hkvs ''0'' = Some (JObj ckvs)))"
proof -
  from assms have d: "data \<noteq> JNull" "data \<noteq> Undefined"
    and dl: "opt_chain (choice0_of data) (\<lambda>c. field c ''delta'') = dl"
    by (auto simp: delta_of_def split: if_splits)
  from dl assms(2) have c0: "choice0_of data \<noteq> Undefined" "choice0_of data \<noteq> JNull"
     and f: "field (choice0_of data) ''delta'' = dl"
    by (auto simp: opt_chain_def split: if_splits)
  from f assms(2) obtain ckvs where ck: "choice0_of data = JObj ckvs"
    using field_Undefined_cases by blast
  with f assms(2) have md: "map_of ckvs ''delta'' = Some dl"
    by (auto split: option.splits)
  from ck have ch: "field data ''choices'' \<noteq> Undefined" "field data ''choices'' \<noteq> JNull"
    and ix: "index0 (field data ''choices'') = JObj ckvs"
    by (auto simp: choice0_of_def opt_chain_def split: if_splits)
  from ch(1) obtain kvs where k: "data = JObj kvs"
    using field_Undefined_cases by blast
  with ch have mc: "map_of kvs ''choices'' = Some (field data ''choices'')"
    by (auto split: option.splits)
  have "(\<exists>xs. field data ''choices'' = JArr (JObj ckvs # xs)) \<or> (\<exists>hkvs. field data ''choices'' = JObj hkvs \<and> map_of hkvs ''0'' = Some (JObj ckvs))"
    using ix by (cases "field data ''choices''") (auto split: list.splits option.splits)
  with k mc ch ix md show ?thesis by blast
qed

lemma delta_of_set_delta:
  assumes "delta_of data = Inr dl" "dl \<noteq> Undefined"
  shows "delta_of (set_delta d data) = Inr d"
proof -
  from delta_of_shape[OF assms] obtain kvs ch ckvs where
    s: "data = JObj kvs" "map_of kvs ''choices'' = Some ch" "ch \<noteq> JNull" "ch \<noteq> Undefined"
       "index0 ch = JObj ckvs" "map_of ckvs ''delta'' = Some dl"
       "(\<exists>xs. ch = JArr (JObj ckvs # xs)) \<or> (\<exists>hkvs. ch = JObj hkvs \<and> map_of hkvs ''0'' = Some (JObj ckvs))"
    by blast
  from s(7) show ?thesis
    using s(1-6)
    by (auto simp: set_delta_def delta_of_def choice0_of_def opt_chain_def map_of_obj_set)
qed



section \<open>The merger, one payload at a time\<close>

lemma transform_hidden:
  assumes "delta_of data = Inr (JObj kvs)"
  shows "transform False started data =
     (Inr (set_delta (JObj (obj_delete ''reasoning_content''
        (obj_set ''content'' (if truthy (field (JObj kvs) ''content'') then field (JObj kvs) ''content'' else JStr []) kvs))) data), started)"
  using assms by (simp add: transform_def Let_def)

lemma transform_hidden_state: "snd (transform False started data) = started"
  by (auto simp: transform_def Let_def split: sum.splits)

lemma merge_stream_hidden_state: "snd (merge_stream False started ds) = started"
proof (induction ds)
  case Nil
  then show ?case by simp
next
  case (Cons d ds)
  obtain r s where t: "transform False started d = (r, s)" by (cases "transform False started d")
  with transform_hidden_state[of started d] have "s = started" by simp
  with t Cons show ?case by (cases r) (auto split: prod.splits)
qed

lemma transform_shown:
  assumes "delta_of data = Inr (JObj kvs)"
  shows "transform True started data =
     (case combine started (field (JObj kvs) ''reasoning_content'') (field (JObj kvs) ''content'') of
        (Inl e, s) \<Rightarrow> (Inl e, s)
      | (Inr c, s) \<Rightarrow>
          if truthy c
          then (Inr (set_delta (JObj (obj_delete ''reasoning_content'' (obj_set ''content'' c kvs))) data), s)
          else (Inr data, s))"
  using assms by (simp add: transform_def Let_def split: prod.splits sum.splits)


lemma combine_textual:
  assumes "textual r" "textual a"
  shows "combine st r a =
     (Inr (JStr (fst (spec_table_step st
              (case r of JStr t \<Rightarrow> t | _ \<Rightarrow> [], case a of JStr t \<Rightarrow> t | _ \<Rightarrow> [])))),
      snd (spec_table_step st
              (case r of JStr t \<Rightarrow> t | _ \<Rightarrow> [], case a of JStr t \<Rightarrow> t | _ \<Rightarrow> [])))"
  using assms
  by (cases r; cases a) (auto simp: combine_def textual_def spec_table_step_def Let_def)

lemma spec_table_step_empty:
  "fst (spec_table_step st (r, a)) = [] \<Longrightarrow> a = []"
  by (auto simp: spec_table_step_def Let_def think_open_def think_close_def split: if_splits)

lemma transform_textual:
  assumes "textual_payload data"
  shows "\<exists>data'. transform True st data = (Inr data', snd (spec_table_step st (pieces data)))
           \<and> content_text data' = fst (spec_table_step st (pieces data))"
proof -
  from assms obtain dl where d: "delta_of data = Inr dl"
    and tr: "textual (field dl ''reasoning_content'')" and ta: "textual (field dl ''content'')"
    by (auto simp: textual_payload_def split: sum.splits)
  let ?r = "case field dl ''reasoning_content'' of JStr t \<Rightarrow> t | _ \<Rightarrow> []"
  let ?a = "case field dl ''content'' of JStr t \<Rightarrow> t | _ \<Rightarrow> []"
  have p: "pieces data = (?r, ?a)"
    using d by (simp add: pieces_def reasoning_text_def content_text_def)
  show ?thesis
  proof (cases "\<exists>kvs. dl = JObj kvs")
    case True
    then obtain kvs where k: "dl = JObj kvs" by blast
    have nu: "JObj kvs \<noteq> Undefined" by simp
    note c = combine_textual[OF tr ta, of st]
    show ?thesis
    proof (cases "fst (spec_table_step st (?r, ?a)) = []")
      case e: True
      from spec_table_step_empty[OF e] have "?a = []" .
      then have "content_text data = []"
        using d by (simp add: content_text_def)
      with e c d k p show ?thesis
        by (simp add: transform_shown del: field.simps)
    next
      case ne: False
      from d k have d': "delta_of data = Inr (JObj kvs)" by simp
      have "content_text (set_delta (JObj (obj_delete ''reasoning_content''
              (obj_set ''content'' (JStr (fst (spec_table_step st (?r, ?a)))) kvs))) data)
            = fst (spec_table_step st (?r, ?a))"
        by (simp add: content_text_def delta_of_set_delta[OF d' nu] map_of_obj_delete map_of_obj_set)
      with ne c d k p show ?thesis
        by (simp add: transform_shown del: field.simps)
    qed
  next
    case False
    then have f: "field dl ''reasoning_content'' = Undefined" "field dl ''content'' = Undefined"
      by (cases dl; simp)+
    have t: "transform True st data = (Inr data, st)"
      using d f by (simp add: transform_def combine_def Let_def)
    have "content_text data = []"
      using d f by (simp add: content_text_def)
    with t p f show ?thesis
      by (simp add: spec_table_step_def)
  qed
qed

lemma merge_stream_textual:
  assumes "list_all textual_payload ds"
  shows "concat (map content_text (fst (merge_stream True st ds))) = spec_table_merge st (map pieces ds)"
  using assms
proof (induction ds arbitrary: st)
  case Nil
  then show ?case by simp
next
  case (Cons d ds)
  from Cons.prems have td: "textual_payload d" and tds: "list_all textual_payload ds" by simp_all
  from transform_textual[OF td, of st] obtain d' where
    t: "transform True st d = (Inr d', snd (spec_table_step st (pieces d)))"
    and c: "content_text d' = fst (spec_table_step st (pieces d))" by blast
  from Cons.IH[OF tds, of "snd (spec_table_step st (pieces d))"] t c show ?case
    by (simp add: case_prod_beta)
qed

lemma merge_stream_append:
  "merge_stream d s (xs @ ys) =
     (let (o1, s1) = merge_stream d s xs; (o2, s2) = merge_stream d s1 ys in (o1 @ o2, s2))"
proof (induction xs arbitrary: s)
  case Nil
  then show ?case by simp
next
  case (Cons x xs)
  then show ?case
    by (auto split: prod.splits sum.splits)
qed

lemma transform_reasoning_delta:
  "transform True s (reasoning_delta r) =
     (Inr (if r = [] then reasoning_delta r
           else payload [(''content'', JStr (if s then r else think_open @ r))]), s \<or> r \<noteq> [])"
  by (auto simp: transform_def reasoning_delta_def payload_def delta_of_def choice0_of_def opt_chain_def
      combine_def set_delta_def obj_delete_def Let_def)

lemma transform_content_delta:
  "transform True s (content_delta a) =
     (Inr (if a = [] then content_delta a
           else payload [(''content'', JStr (if s then think_close @ a else a))]), s \<and> a = [])"
  by (auto simp: transform_def content_delta_def payload_def delta_of_def choice0_of_def opt_chain_def
      combine_def set_delta_def obj_delete_def Let_def)

lemma content_text_payload: "content_text (payload [(''content'', JStr t)]) = t"
  by (simp add: content_text_def payload_def delta_of_def choice0_of_def opt_chain_def)

lemma content_text_reasoning_delta: "content_text (reasoning_delta r) = []"
  by (simp add: content_text_def reasoning_delta_def payload_def delta_of_def choice0_of_def opt_chain_def)

lemma content_text_content_delta: "content_text (content_delta a) = a"
  by (simp add: content_text_def content_delta_def payload_def delta_of_def choice0_of_def opt_chain_def)

lemma reasoning_run:
  "concat (map content_text (fst (merge_stream True s (map reasoning_delta rs))))
     = (if concat rs = [] then [] else if s then concat rs else think_open @ concat rs)
   \<and> snd (merge_stream True s (map reasoning_delta rs)) = (s \<or> concat rs \<noteq> [])"
proof (induction rs arbitrary: s)
  case Nil
  then show ?case by simp
next
  case (Cons r rs)
  show ?case
    using Cons[of "s \<or> r \<noteq> []"]
    by (auto simp: transform_reasoning_delta content_text_payload content_text_reasoning_delta
        split: prod.splits)
qed

lemma content_run:
  "concat (map content_text (fst (merge_stream True s (map content_delta as))))
     = (if concat as = [] then [] else if s then think_close @ concat as else concat as)"
proof (induction as arbitrary: s)
  case Nil
  then show ?case by simp
next
  case (Cons a as)
  show ?case
    using Cons[of "s \<and> a = []"]
    by (auto simp: transform_content_delta content_text_payload content_text_content_delta
        split: prod.splits)
qed

lemma merged_text_streamed:
  "merged_text True (streamed rs as) =
     (if concat rs = [] then concat as
      else think_open @ concat rs @ (if concat as = [] then [] else think_close @ concat as))"
proof -
  obtain o1 s1 where m1: "merge_stream True False (map reasoning_delta rs) = (o1, s1)"
    by (cases "merge_stream True False (map reasoning_delta rs)")
  obtain o2 s2 where m2: "merge_stream True s1 (map content_delta as) = (o2, s2)"
    by (cases "merge_stream True s1 (map content_delta as)")
  from reasoning_run[of False rs] m1 have
    r1: "concat (map content_text o1) = (if concat rs = [] then [] else think_open @ concat rs)"
    and r2: "s1 = (concat rs \<noteq> [])" by auto
  from content_run[of s1 as] m2 have
    r3: "concat (map content_text o2) = (if concat as = [] then [] else if s1 then think_close @ concat as else concat as)"
    by simp
  have "merged_text True (streamed rs as) = concat (map content_text o1) @ concat (map content_text o2)"
    by (simp add: merged_text_def streamed_def merge_stream_append m1 m2)
  with r1 r2 r3 show ?thesis by auto
qed

lemma full_content_message_choice:
  "full_content True (message_choice r a) =
     Inr (JStr (if r = [] then a else think_open @ r @ think_close @ a))"
  by (simp add: full_content_def message_choice_def opt_chain_def js_or_def Let_def)

lemma textual_deltas:
  "textual_payload (reasoning_delta r)" "textual_payload (content_delta a)"
  by (simp_all add: textual_payload_def textual_def reasoning_delta_def content_delta_def payload_def
      delta_of_def choice0_of_def opt_chain_def)

section \<open>Lines and chunks\<close>

lemma split_nl_nonempty: "split_nl s \<noteq> []"
  by (induction s) (auto split: list.splits)

lemma split_nl_last: "NL \<notin> set (last (split_nl s))"
  by (induction s) (auto simp: split_nl_nonempty split: list.splits)

lemma split_nl_no_newline: "NL \<notin> set s \<Longrightarrow> split_nl s = [s]"
  by (induction s) auto

lemma split_nl_append:
  "split_nl (a @ b) = butlast (split_nl a) @ split_nl (last (split_nl a) @ b)"
proof (induction a)
  case Nil
  then show ?case by simp
next
  case (Cons c a)
  show ?case
  proof (cases "c = NL")
    case True
    with Cons show ?thesis by (simp add: split_nl_nonempty)
  next
    case False
    obtain l ls where s: "split_nl a = l # ls"
      using split_nl_nonempty[of a] by (cases "split_nl a") auto
    show ?thesis
    proof (cases ls)
      case Nil
      with False s Cons show ?thesis by simp
    next
      case (Cons x xs)
      with False s Cons.IH show ?thesis by simp
    qed
  qed
qed

lemma process_lines_append:
  "process_lines cfg (xs @ ys) st =
     (case process_lines cfg xs st of
        (None, st') \<Rightarrow> process_lines cfg ys st'
      | (Some m, st') \<Rightarrow> (Some m, st'))"
  by (induction xs arbitrary: st) (auto split: prod.splits option.splits)

lemma feed_buffer: "NL \<notin> set (fst (snd (feed cfg chunk st)))"
  by (cases st) (simp add: feed_def Let_def split_nl_last split: prod.splits)

lemma feed_append:
  "outcome (feed cfg (c1 @ c2) st) =
     outcome (case feed cfg c1 st of (None, st') \<Rightarrow> feed cfg c2 st' | (Some m, st') \<Rightarrow> (Some m, st'))"
proof -
  obtain buffer st1 where st: "st = (buffer, st1)" by (cases st)
  let ?l1 = "split_nl (buffer @ c1)"
  have sp: "split_nl (buffer @ c1 @ c2) = butlast ?l1 @ split_nl (last ?l1 @ c2)"
    using split_nl_append[of "buffer @ c1" c2] by simp
  have bl: "butlast (butlast ?l1 @ split_nl (last ?l1 @ c2))
              = butlast ?l1 @ butlast (split_nl (last ?l1 @ c2))"
    by (simp add: butlast_append split_nl_nonempty)
  have la: "last (butlast ?l1 @ split_nl (last ?l1 @ c2)) = last (split_nl (last ?l1 @ c2))"
    by (simp add: split_nl_nonempty)
  obtain r1 st2 where p1: "process_lines cfg (butlast ?l1) st1 = (r1, st2)"
    by (cases "process_lines cfg (butlast ?l1) st1")
  show ?thesis
  proof (cases r1)
    case None
    with p1 st sp bl la show ?thesis
      by (simp add: feed_def outcome_def process_lines_append split: prod.splits)
  next
    case (Some m)
    with p1 st sp bl la show ?thesis
      by (simp add: feed_def outcome_def process_lines_append split: prod.splits)
  qed
qed

lemma read_loop_merge:
  "outcome (read_loop cfg ((c1 @ c2) # cs) e st) = outcome (read_loop cfg (c1 # c2 # cs) e st)"
proof -
  obtain r1 st1 where f1: "feed cfg c1 st = (r1, st1)" by (cases "feed cfg c1 st")
  obtain r st' where f: "feed cfg (c1 @ c2) st = (r, st')" by (cases "feed cfg (c1 @ c2) st")
  show ?thesis
  proof (cases r1)
    case (Some m)
    with f1 f feed_append[of cfg c1 c2 st] show ?thesis
      by (auto simp: outcome_def)
  next
    case None
    obtain r2 st2 where f2: "feed cfg c2 st1 = (r2, st2)" by (cases "feed cfg c2 st1")
    from None f1 f f2 feed_append[of cfg c1 c2 st]
    have o: "r = r2" "snd st' = snd st2" by (auto simp: outcome_def)
    have b: "fst st' = fst st2"
      using None f1 f f2 split_nl_append[of "fst st @ c1" c2]
      by (cases st) (auto simp: feed_def Let_def split_nl_nonempty split: prod.splits)
    from o b have "st' = st2" by (simp add: prod_eq_iff)
    with None f1 f f2 o show ?thesis by simp
  qed
qed

lemma read_loop_empty_chunk:
  assumes "NL \<notin> set (fst st)"
  shows "read_loop cfg [[]] e st = read_loop cfg [] e st"
  using assms by (cases st) (simp add: feed_def split_nl_no_newline)

lemma read_loop_concat:
  assumes "NL \<notin> set (fst st)"
  shows "outcome (read_loop cfg cs e st) = outcome (read_loop cfg [concat cs] e st)"
  using assms
proof (induction cs arbitrary: st)
  case Nil
  then show ?case using read_loop_empty_chunk[of st cfg e] by simp
next
  case (Cons c cs)
  obtain r st1 where f: "feed cfg c st = (r, st1)" by (cases "feed cfg c st")
  have inv: "NL \<notin> set (fst st1)"
    using feed_buffer[of cfg c st] f by simp
  have "outcome (read_loop cfg (c # cs) e st) = outcome (read_loop cfg [c, concat cs] e st)"
  proof (cases r)
    case None
    with f Cons.IH[OF inv] show ?thesis by simp
  next
    case (Some m)
    with f show ?thesis by simp
  qed
  also have "\<dots> = outcome (read_loop cfg [c @ concat cs] e st)"
    by (rule read_loop_merge[symmetric])
  finally show ?case by simp
qed

lemma pump_outcome:
  "pump cfg cs e w =
     (case outcome (read_loop cfg cs e ([], False, w)) of
        (None, started, w') \<Rightarrow> writer_close w'
      | (Some m, started, w') \<Rightarrow> writer_close (recover m w'))"
  by (simp add: pump_def outcome_def split: prod.splits option.splits)

lemma pump_chunk_invariant:
  assumes "concat cs1 = concat cs2"
  shows "pump cfg cs1 ending w = pump cfg cs2 ending w
     \<and> NL \<notin> set (fst (snd (feed cfg chunk st)))"
proof -
  have "outcome (read_loop cfg cs1 ending ([], False, w))
          = outcome (read_loop cfg cs2 ending ([], False, w))"
    using assms read_loop_concat[of "([], False, w)" cfg cs1 ending]
      read_loop_concat[of "([], False, w)" cfg cs2 ending]
    by simp
  then show ?thesis
    by (simp add: pump_outcome feed_buffer)
qed

lemma decode_chunks_concat:
  assumes "\<And>d a b. decoder d (a @ b) = (fst (decoder d a) @ fst (decoder (snd (decoder d a)) b), snd (decoder (snd (decoder d a)) b))"
      and "\<And>d. decoder d [] = ([], d)"
  shows "concat (decode_chunks decoder d vs) = fst (decoder d (concat vs))"
proof (induction vs arbitrary: d)
  case Nil
  then show ?case by (simp add: assms(2))
next
  case (Cons v vs)
  have "fst (decoder d (v @ concat vs)) = fst (decoder d v) @ fst (decoder (snd (decoder d v)) (concat vs))"
    by (subst assms(1)) simp
  with Cons[of "snd (decoder d v)"] show ?case
    by (simp add: case_prod_beta)
qed

section \<open>What the pump does to the writer\<close>

text \<open>
  The loop touches the writer only through \<open>write\<close>, so a property of the writer that
  every write keeps is kept by the whole loop and by the handler of the outer try.
\<close>

lemma write_only_process_line:
  assumes "\<And>s w. P w \<Longrightarrow> P (snd (writer_write s w))" "P w"
  shows "P (snd (snd (process_line cfg l (st, w))))"
proof -
  have 1: "\<And>s. P (snd (writer_write s w))" using assms by blast
  have 2: "\<And>s t. P (snd (writer_write t (snd (writer_write s w))))" using assms by blast
  show ?thesis
    using assms(2) 1 2
    by (auto simp: process_line_def Let_def case_prod_beta split: option.splits sum.splits)
qed

lemma write_only_process_lines:
  assumes "\<And>s w. P w \<Longrightarrow> P (snd (writer_write s w))" "P w"
  shows "P (snd (snd (process_lines cfg ls (st, w))))"
  using assms(2)
proof (induction ls arbitrary: st w)
  case Nil
  then show ?case by simp
next
  case (Cons l ls)
  obtain r s' w' where p: "process_line cfg l (st, w) = (r, s', w')"
    by (cases "process_line cfg l (st, w)")
  with write_only_process_line[of P w cfg l st, OF assms(1) Cons.prems] have "P w'" by simp
  with Cons.IH[of w' s'] p show ?case by (cases r) auto
qed

lemma write_only_feed:
  assumes "\<And>s w. P w \<Longrightarrow> P (snd (writer_write s w))" "P w"
  shows "P (snd (snd (snd (feed cfg c (buf, st, w)))))"
  using write_only_process_lines[of P w cfg "butlast (split_nl (buf @ c))" st, OF assms]
  by (simp add: feed_def Let_def case_prod_beta)

lemma write_only_flush:
  assumes "\<And>s w. P w \<Longrightarrow> P (snd (writer_write s w))" "P w"
  shows "P (fold flush_line ls w)"
  using assms(2)
proof (induction ls arbitrary: w)
  case Nil
  then show ?case by simp
next
  case (Cons l ls)
  have "P (flush_line l w)" using assms(1) Cons.prems by (simp add: flush_line_def)
  with Cons.IH show ?case by simp
qed

lemma write_only_finish:
  assumes "\<And>s w. P w \<Longrightarrow> P (snd (writer_write s w))" "P w"
  shows "P (snd (snd (snd (finish (buf, st, w)))))"
  using assms(1)[OF write_only_flush[of P w "split_nl buf", OF assms], of done_frame]
    assms(1)[OF assms(2), of done_frame]
  by (simp add: finish_def Let_def case_prod_beta)

lemma write_only_read_loop:
  assumes "\<And>s w. P w \<Longrightarrow> P (snd (writer_write s w))" "P w"
  shows "P (snd (snd (snd (read_loop cfg cs e (buf, st, w)))))"
  using assms(2)
proof (induction cs arbitrary: buf st w)
  case Nil
  with write_only_finish[of P w buf st, OF assms(1)] show ?case by (cases e) auto
next
  case (Cons c cs)
  obtain r b' s' w' where f: "feed cfg c (buf, st, w) = (r, b', s', w')"
    by (cases "feed cfg c (buf, st, w)") auto
  with write_only_feed[of P w cfg c buf st, OF assms(1) Cons.prems] have "P w'" by simp
  with Cons.IH[of w' b' s'] f show ?case by (cases r) auto
qed

lemma write_only_recover:
  assumes "\<And>s w. P w \<Longrightarrow> P (snd (writer_write s w))" "P w"
  shows "P (recover y w)"
proof (cases y)
  case (Raised m)
  with assms(1)[OF assms(2), of "error_frame m"]
    assms(1)[OF assms(1)[OF assms(2), of "error_frame m"], of done_frame]
  show ?thesis
    by (auto simp: recover_def case_prod_beta split: option.splits)
next
  case Nullish
  with assms(2) show ?thesis by (simp add: recover_def)
qed

lemma write_keeps_close:
  "filter is_close (events w) = [] \<and> close_rejects w = c \<Longrightarrow>
   filter is_close (events (snd (writer_write s w))) = [] \<and> close_rejects (snd (writer_write s w)) = c"
  by (auto simp: writer_write_def split: option.splits nat.splits)

lemma write_keeps_sticky:
  "(list_ex is_rejection (events w) \<longrightarrow> budget w = Some 0) \<Longrightarrow>
   (list_ex is_rejection (events (snd (writer_write s w))) \<longrightarrow> budget (snd (writer_write s w)) = Some 0)"
  by (auto simp: writer_write_def split: option.splits nat.splits)

lemma write_accepted:
  "fst (writer_write s w) = None \<longleftrightarrow> budget w \<noteq> Some 0"
  by (auto simp: writer_write_def split: option.splits nat.splits)

lemma write_events:
  "events (snd (writer_write s w)) = events w @ [if budget w = Some 0 then WriteFailed s else Wrote s]"
  by (auto simp: writer_write_def split: option.splits nat.splits)

text \<open>
  A rejected write leaves the loop as an exception: directly in the loop over lines;
  at the end of the input, where it is caught, because the write of the final frame that
  follows is rejected as well.
\<close>

lemma process_line_raises:
  assumes "\<not> list_ex is_rejection (events w)"
      and "fst (process_line cfg l (st, w)) = None"
  shows "\<not> list_ex is_rejection (events (snd (snd (process_line cfg l (st, w)))))"
  using assms
  by (auto simp: process_line_def writer_write_def Let_def case_prod_beta
      split: option.splits nat.splits sum.splits if_splits)

lemma process_lines_raises:
  assumes "\<not> list_ex is_rejection (events w)"
      and "fst (process_lines cfg ls (st, w)) = None"
  shows "\<not> list_ex is_rejection (events (snd (snd (process_lines cfg ls (st, w)))))"
  using assms
proof (induction ls arbitrary: st w)
  case Nil
  then show ?case by simp
next
  case (Cons l ls)
  obtain r s' w' where p: "process_line cfg l (st, w) = (r, s', w')"
    by (cases "process_line cfg l (st, w)")
  show ?case
  proof (cases r)
    case None
    with p process_line_raises[of w cfg l st] Cons.prems(1)
    have h: "\<not> list_ex is_rejection (events w')" by simp
    from Cons.prems(2) p None have "fst (process_lines cfg ls (s', w')) = None" by simp
    from Cons.IH[OF h this] p None show ?thesis by simp
  next
    case (Some m)
    with p Cons.prems(2) show ?thesis by simp
  qed
qed

lemma feed_raises:
  assumes "\<not> list_ex is_rejection (events w)"
      and "fst (feed cfg c (buf, st, w)) = None"
  shows "\<not> list_ex is_rejection (events (snd (snd (snd (feed cfg c (buf, st, w))))))"
  using assms process_lines_raises[of w cfg "butlast (split_nl (buf @ c))" st]
  by (simp add: feed_def Let_def case_prod_beta)

lemma finish_raises:
  assumes "\<not> list_ex is_rejection (events w)"
      and "fst (finish (buf, st, w)) = None"
  shows "\<not> list_ex is_rejection (events (snd (snd (snd (finish (buf, st, w))))))"
proof -
  let ?w1 = "if trim buf \<noteq> [] then fold flush_line (split_nl buf) w else w"
  have st: "list_ex is_rejection (events ?w1) \<longrightarrow> budget ?w1 = Some 0"
    using write_only_flush[of "\<lambda>w. list_ex is_rejection (events w) \<longrightarrow> budget w = Some 0" w "split_nl buf"]
      write_keeps_sticky assms(1)
    by auto
  have f: "finish (buf, st, w) = (fst (writer_write done_frame ?w1), buf, st, snd (writer_write done_frame ?w1))"
    by (simp add: finish_def Let_def case_prod_beta)
  with assms(2) have "budget ?w1 \<noteq> Some 0" by (simp add: write_accepted)
  with st have "\<not> list_ex is_rejection (events ?w1)" by blast
  with \<open>budget ?w1 \<noteq> Some 0\<close> have "\<not> list_ex is_rejection (events (snd (writer_write done_frame ?w1)))"
    by (simp only: write_events) simp
  with f show ?thesis by simp
qed

lemma read_loop_raises:
  assumes "\<not> list_ex is_rejection (events w)"
      and "fst (read_loop cfg cs e (buf, st, w)) = None"
  shows "\<not> list_ex is_rejection (events (snd (snd (snd (read_loop cfg cs e (buf, st, w))))))"
  using assms
proof (induction cs arbitrary: buf st w)
  case Nil
  show ?case
  proof (cases e)
    case None
    with Nil finish_raises[of w buf st] show ?thesis by simp
  next
    case (Some m)
    with Nil show ?thesis by simp
  qed
next
  case (Cons c cs)
  obtain r b' s' w' where f: "feed cfg c (buf, st, w) = (r, b', s', w')"
    by (cases "feed cfg c (buf, st, w)") auto
  show ?case
  proof (cases r)
    case None
    with f feed_raises[of w cfg c buf st] Cons.prems(1)
    have h: "\<not> list_ex is_rejection (events w')" by simp
    from Cons.prems(2) f None have "fst (read_loop cfg cs e (b', s', w')) = None" by simp
    from Cons.IH[OF h this] f None show ?thesis by simp
  next
    case (Some m)
    with f Cons.prems(2) show ?thesis by simp
  qed
qed

text \<open>With a writer that accepts every write, only a failing read ends the loop early.\<close>

lemma process_line_unbounded:
  assumes "budget w = None"
  shows "fst (process_line cfg l (st, w)) = None \<and> budget (snd (snd (process_line cfg l (st, w)))) = None"
  using assms
  by (auto simp: process_line_def writer_write_def Let_def case_prod_beta
      split: option.splits nat.splits sum.splits if_splits)

lemma process_lines_unbounded:
  assumes "budget w = None"
  shows "fst (process_lines cfg ls (st, w)) = None \<and> budget (snd (snd (process_lines cfg ls (st, w)))) = None"
  using assms
proof (induction ls arbitrary: st w)
  case Nil
  then show ?case by simp
next
  case (Cons l ls)
  obtain r s' w' where p: "process_line cfg l (st, w) = (r, s', w')"
    by (cases "process_line cfg l (st, w)")
  with process_line_unbounded[of w cfg l st] Cons.prems have "r = None" "budget w' = None" by auto
  with Cons.IH[of w' s'] p show ?case by simp
qed

lemma read_loop_unbounded:
  assumes "budget w = None"
  shows "fst (read_loop cfg cs e (buf, st, w)) = e"
  using assms
proof (induction cs arbitrary: buf st w)
  case Nil
  have "budget (if trim buf \<noteq> [] then fold flush_line (split_nl buf) w else w) = None"
    using write_only_flush[of "\<lambda>w. budget w = None" w "split_nl buf"] Nil
    by (auto simp: writer_write_def)
  then show ?case
    by (cases e) (auto simp: finish_def Let_def case_prod_beta write_accepted split: if_splits)
next
  case (Cons c cs)
  obtain r b' s' w' where f: "feed cfg c (buf, st, w) = (r, b', s', w')"
    by (cases "feed cfg c (buf, st, w)") auto
  with process_lines_unbounded[of w cfg "butlast (split_nl (buf @ c))" st] Cons.prems
  have "r = None" "budget w' = None" by (auto simp: feed_def Let_def case_prod_beta)
  with Cons.IH[of w' b' s'] f show ?case by simp
qed

lemma read_loop_keeps_unbounded:
  assumes "budget w = None"
  shows "budget (snd (snd (snd (read_loop cfg cs e (buf, st, w))))) = None"
  using write_only_read_loop[of "\<lambda>w. budget w = None" w cfg cs e buf st] assms
  by (auto simp: writer_write_def)

lemma recover_events:
  "events (recover (Raised m) w) = events w @
     (if budget w = Some 0 then [WriteFailed (error_frame m)]
      else if budget w = Some 1 then [Wrote (error_frame m), WriteFailed done_frame]
      else [Wrote (error_frame m), Wrote done_frame])"
  by (auto simp: recover_def writer_write_def split: option.splits nat.splits)

lemma recover_nullish: "recover Nullish w = w"
  by (simp add: recover_def)

lemma read_loop_close:
  "filter is_close (events (snd (snd (snd (read_loop cfg cs e ([], False, new_writer b m c)))))) = []
   \<and> close_rejects (snd (snd (snd (read_loop cfg cs e ([], False, new_writer b m c))))) = c"
  using write_only_read_loop[of "\<lambda>w. filter is_close (events w) = [] \<and> close_rejects w = c"
      "new_writer b m c" cfg cs e "[]" False] write_keeps_close[of _ c]
  by (simp add: new_writer_def)

lemma recover_close:
  assumes "filter is_close (events w) = [] \<and> close_rejects w = c"
  shows "filter is_close (events (recover m w)) = [] \<and> close_rejects (recover m w) = c"
  using write_only_recover[of "\<lambda>w. filter is_close (events w) = [] \<and> close_rejects w = c" w m]
    write_keeps_close[of _ c] assms
  by simp






lemmas run_defs = pump_def feed_def process_line_def finish_def flush_line_def writer_write_def
  writer_close_def new_writer_def trim_def is_ws_def startsWith_def data_marker_def done_token_def
  done_frame_def sample_config_def sample_parse_def sample_stringify_def SHOW_REASONING_def
  sample_reasoning_json_def sample_merged_json_def payload_def combine_def set_delta_def
  obj_delete_def think_open_def
  transform_def delta_of_def choice0_of_def opt_chain_def recover_def error_frame_def

section \<open>Claims about the merger\<close>

text \<open>
  Claim C1, as the code has it.  With reasoning displayed, for every sequence of
  payloads whose reasoning and answer fields hold text (or nothing), the merged content
  is what the state table of the specification gives: each maximal run of reasoning
  text is opened by \<open><think>\n\<close>, its pieces follow each other with nothing in
  between, and it is closed by \<open>\n</think>\n\n\<close> when answer text arrives; a run that
  is still open when the stream ends is not closed.  For one run \<open>rs\<close> followed by
  the answer \<open>as\<close> the text is written out.  The payloads \<open>{reasoning: a}\<close>,
  \<open>{reasoning: b}\<close>, \<open>{content: c}\<close> give \<open><think>\nab\n</think>\n\nc\<close>;
  \<open>{content: x}\<close> alone gives \<open>x\<close>; one payload with reasoning \<open>r\<close> and content
  \<open>a\<close> gives \<open><think>\nr\n</think>\n\na\<close> and leaves \<open>reasoningStarted\<close> false.
\<close>

theorem merger_wraps_runs:
  assumes "list_all textual_payload ds"
  shows "merged_text True ds = spec_table_merge False (map pieces ds)
   \<and> merged_text True (streamed rs as)
     = (if concat rs = [] then concat as
        else ''<think>'' @ [NL] @ concat rs
             @ (if concat as = [] then [] else [NL] @ ''</think>'' @ [NL, NL] @ concat as))
   \<and> merged_text True [reasoning_delta ''a'', reasoning_delta ''b'', content_delta ''c'']
     = ''<think>'' @ [NL] @ ''ab'' @ [NL] @ ''</think>'' @ [NL, NL] @ ''c''
   \<and> merged_text True [content_delta ''x''] = ''x''
   \<and> merged_text True [payload [(''reasoning_content'', JStr ''r''), (''content'', JStr ''a'')]]
     = ''<think>'' @ [NL] @ ''r'' @ [NL] @ ''</think>'' @ [NL, NL] @ ''a''
   \<and> snd (merge_stream True False
          [payload [(''reasoning_content'', JStr ''r''), (''content'', JStr ''a'')]]) = False"
proof -
  have 1: "merged_text True ds = spec_table_merge False (map pieces ds)"
    using merge_stream_textual[OF assms, of False] by (simp add: merged_text_def)
  have 2: "merged_text True (streamed rs as)
     = (if concat rs = [] then concat as
        else ''<think>'' @ [NL] @ concat rs
             @ (if concat as = [] then [] else [NL] @ ''</think>'' @ [NL, NL] @ concat as))"
    by (simp add: merged_text_streamed think_open_def think_close_def)
  have 3: "merged_text True [reasoning_delta ''a'', reasoning_delta ''b'', content_delta ''c'']
     = ''<think>'' @ [NL] @ ''ab'' @ [NL] @ ''</think>'' @ [NL, NL] @ ''c''"
    by code_simp
  have 4: "merged_text True [content_delta ''x''] = ''x''"
    by code_simp
  have 5: "merged_text True [payload [(''reasoning_content'', JStr ''r''), (''content'', JStr ''a'')]]
     = ''<think>'' @ [NL] @ ''r'' @ [NL] @ ''</think>'' @ [NL, NL] @ ''a''"
    by code_simp
  have 6: "snd (merge_stream True False
          [payload [(''reasoning_content'', JStr ''r''), (''content'', JStr ''a'')]]) = False"
    by code_simp
  from 1 2 3 4 5 6 show ?thesis by blast
qed

theorem merger_wraps_runs_witness:
  "merged_text True
     [reasoning_delta ''a'',
      payload [(''reasoning_content'', JStr ''b''), (''content'', JStr ''c'')],
      payload [(''reasoning_content'', JStr ''d''), (''content'', JNull)],
      payload [(''reasoning_content'', JStr ''e''), (''content'', JStr ''f'')]]
   = ''<think>'' @ [NL] @ ''ab'' @ [NL] @ ''</think>'' @ [NL, NL] @ ''c''
     @ ''<think>'' @ [NL] @ ''de'' @ [NL] @ ''</think>'' @ [NL, NL] @ ''f''"
proof -
  let ?ds = "[reasoning_delta ''a'',
      payload [(''reasoning_content'', JStr ''b''), (''content'', JStr ''c'')],
      payload [(''reasoning_content'', JStr ''d''), (''content'', JNull)],
      payload [(''reasoning_content'', JStr ''e''), (''content'', JStr ''f'')]]"
  have t: "list_all textual_payload ?ds"
    by (simp add: textual_payload_def textual_def reasoning_delta_def payload_def
        delta_of_def choice0_of_def opt_chain_def)
  have p: "map pieces ?ds = [(''a'', []), (''b'', ''c''), (''d'', []), (''e'', ''f'')]"
    by (simp add: pieces_def reasoning_text_def content_text_def reasoning_delta_def payload_def
        delta_of_def choice0_of_def opt_chain_def)
  from merger_wraps_runs[OF t, of "[]" "[]"] p show ?thesis
    by (simp add: spec_table_step_def think_open_def think_close_def)
qed

text \<open>
  The text claim C1 gives for the first input, with a newline between \<open>a\<close> and \<open>b\<close>,
  is not what the merger produces; and a run of reasoning that no answer follows is
  opened and never closed.
\<close>

theorem merger_wraps_runs_counterexample:
  "merged_text True [reasoning_delta ''a'', reasoning_delta ''b'', content_delta ''c'']
     \<noteq> ''<think>'' @ [NL] @ ''a'' @ [NL] @ ''b'' @ [NL] @ ''</think>'' @ [NL, NL] @ ''c''
   \<and> merged_text True [content_delta ''x'', reasoning_delta ''r''] = ''x'' @ ''<think>'' @ [NL] @ ''r''"
  by code_simp

text \<open>
  Claim C5.  With reasoning hidden, a payload whose delta is an object is rewritten so
  that the delta's content is the answer when there is one (a truthy \<open>content\<close>) and
  the empty string otherwise; the delta has no \<open>reasoning_content\<close> any more; nothing
  is added to the answer; and \<open>reasoningStarted\<close> keeps its value, over one payload and
  over any sequence of payloads.
\<close>

theorem hidden_reasoning:
  assumes "delta_of data = Inr (JObj kvs)"
  shows "\<exists>data' kvs'. transform False started data = (Inr data', started)
     \<and> delta_of data' = Inr (JObj kvs')
     \<and> map_of kvs' ''content'' =
         Some (if truthy (field (JObj kvs) ''content'') then field (JObj kvs) ''content'' else JStr [])
     \<and> ''reasoning_content'' \<notin> fst ` set kvs'
     \<and> snd (merge_stream False started ds) = started"
  using assms
  by (simp add: transform_hidden delta_of_set_delta map_of_obj_delete map_of_obj_set keys_obj_delete
      merge_stream_hidden_state del: field.simps)

theorem hidden_reasoning_witness:
  "\<exists>data' kvs'.
     transform False False (payload [(''reasoning_content'', JStr ''r''), (''content'', JStr ''a'')])
       = (Inr data', False)
     \<and> delta_of data' = Inr (JObj kvs')
     \<and> map_of kvs' ''content'' = Some (JStr ''a'')
     \<and> ''reasoning_content'' \<notin> fst ` set kvs'"
proof -
  let ?kvs = "[(''reasoning_content'', JStr ''r''), (''content'', JStr ''a'')]"
  have d: "delta_of (payload ?kvs) = Inr (JObj ?kvs)"
    by (simp add: delta_of_def payload_def choice0_of_def opt_chain_def)
  from hidden_reasoning[OF d, of False "[]"] show ?thesis by simp
qed

text \<open>
  Claim C6, as the code has it.  Let a message's reasoning arrive as the pieces
  \<open>rs\<close> and then its answer as the pieces \<open>as\<close>.  When the answer is not empty, or the
  reasoning is empty, the merged contents of the stream concatenate to the content
  the non-streaming reshaper gives for the whole message.
\<close>

theorem streaming_matches_one_shot:
  assumes "concat as \<noteq> [] \<or> concat rs = []"
  shows "full_content True (message_choice (concat rs) (concat as))
           = Inr (JStr (merged_text True (streamed rs as)))"
  using assms by (auto simp: merged_text_streamed full_content_message_choice)

theorem streaming_matches_one_shot_witness:
  "full_content True (message_choice ''think'' ''answer'')
     = Inr (JStr (merged_text True (streamed [''th'', ''ink''] [''ans'', [], ''wer''])))"
  using streaming_matches_one_shot[of "[''ans'', [], ''wer'']" "[''th'', ''ink'']"] by simp

text \<open>
  Reasoning without an answer: the stream never emits the closing marker, the reshaper
  does.
\<close>

theorem streaming_unclosed_counterexample:
  "full_content True (message_choice ''r'' []) \<noteq> Inr (JStr (merged_text True (streamed [''r''] [])))"
  by code_simp




section \<open>Claims about the stream pump\<close>

text \<open>
  Claim C2.  Let the decoder be a streaming decoder: decoding a chunk in two parts gives
  the text of decoding it at once, and the same final state.  Then two sequences of raw
  chunks with the same concatenation make the pump do exactly the same to the writer:
  the same frames in the same order (and the same rejected writes, and the same close),
  wherever the chunk boundaries fall.  After every chunk the buffer holds no newline: it
  is the one line that is not complete yet.
\<close>

theorem chunk_boundaries:
  assumes "\<And>d a b. decoder d (a @ b) = (fst (decoder d a) @ fst (decoder (snd (decoder d a)) b), snd (decoder (snd (decoder d a)) b))"
      and "\<And>d. decoder d [] = ([], d)"
      and "concat vs1 = concat vs2"
  shows "pump_raw decoder d cfg vs1 ending w = pump_raw decoder d cfg vs2 ending w
     \<and> NL \<notin> set (fst (snd (feed cfg chunk st)))"
proof -
  have "concat (decode_chunks decoder d vs1) = concat (decode_chunks decoder d vs2)"
    using decode_chunks_concat[of decoder d vs1, OF assms(1,2)]
      decode_chunks_concat[of decoder d vs2, OF assms(1,2)] assms(3)
    by simp
  from pump_chunk_invariant[OF this] show ?thesis
    by (simp add: pump_raw_def)
qed

theorem chunk_boundaries_witness:
  "pump_raw sample_decode () sample_config
       [''da'', ''ta: {}'' @ [NL], [NL] @ ''data: [DO'', ''NE]'' @ [NL, NL]] None
       (new_writer None (Raised []) False)
     = pump_raw sample_decode () sample_config
         [''data: {}'' @ [NL, NL] @ ''data: [DONE]'' @ [NL, NL]] None (new_writer None (Raised []) False)
   \<and> events (pump_raw sample_decode () sample_config
         [''data: {}'' @ [NL, NL] @ ''data: [DONE]'' @ [NL, NL]] None (new_writer None (Raised []) False))
     = [Wrote (''data: {}'' @ [NL, NL]), Wrote (''data: [DONE]'' @ [NL, NL]),
        Wrote (''data: [DONE]'' @ [NL, NL]), CloseOk]
   \<and> NL \<notin> set (fst (snd (feed sample_config (''data: {}'' @ [NL] @ ''da'')
         ([], False, new_writer None (Raised []) False))))"
proof -
  have c: "concat [''da'', ''ta: {}'' @ [NL], [NL] @ ''data: [DO'', ''NE]'' @ [NL, NL]]
         = concat [''data: {}'' @ [NL, NL] @ ''data: [DONE]'' @ [NL, NL]]"
    by simp
  have l: "\<And>d a b. sample_decode d (a @ b)
      = (fst (sample_decode d a) @ fst (sample_decode (snd (sample_decode d a)) b),
         snd (sample_decode (snd (sample_decode d a)) b))"
    by (simp add: sample_decode_def)
  have n: "\<And>d. sample_decode d [] = ([], d)"
    by (simp add: sample_decode_def)
  have e: "events (pump_raw sample_decode () sample_config
         [''data: {}'' @ [NL, NL] @ ''data: [DONE]'' @ [NL, NL]] None (new_writer None (Raised []) False))
     = [Wrote (''data: {}'' @ [NL, NL]), Wrote (''data: [DONE]'' @ [NL, NL]),
        Wrote (''data: [DONE]'' @ [NL, NL]), CloseOk]"
    by (simp add: pump_raw_def sample_decode_def run_defs)
  from chunk_boundaries[of sample_decode, OF l n c, of "()" sample_config None
      "new_writer None (Raised []) False" "''data: {}'' @ [NL] @ ''da''" "([], False, new_writer None (Raised []) False)"] e
  show ?thesis by simp
qed

text \<open>
  Claim C3 asks for exactly one terminal frame downstream.  When upstream ends with
  its own \<open>data: [DONE]\<close> the client receives two: line 179 forwards the upstream
  one and line 166 adds the final one.
\<close>

theorem upstream_done_is_doubled:
  "received (events (pump sample_config [''data: [DONE]'' @ [NL, NL]] None (new_writer None (Raised []) False)))
     = [''data: [DONE]'' @ [NL, NL], ''data: [DONE]'' @ [NL, NL]]"
  by (simp add: run_defs)




text \<open>
  Claim C8, as the code has it.  Whatever the upstream body, its end and the writer's
  behaviour: the pump closes the writer exactly once, as the last thing it does, and a
  rejected close changes nothing else.  The exceptions that leave the loop are a failed
  read and a rejected write (one raised while a line is parsed or rewritten is caught
  for that line, which is forwarded as it came, with no diagnostic frame).  When the
  value raised is not null or undefined and its message reads \<open>msg\<close>, the pump then
  tries to write the diagnostic frame \<open>data: {"error": "msg"}\<close> and, if that write is
  accepted, the terminal frame, and then closes; when it is null or undefined nothing is
  written before the close.  Every rejected write in the loop leaves it as an exception,
  and with a writer that accepts everything the loop raises exactly when the read fails:
  the client then receives the diagnostic frame and the terminal frame before the close,
  and when the read does not fail nothing follows the loop but the close.
\<close>

theorem cleanup:
  assumes "read_loop cfg cs ending ([], False, new_writer b x c) = (r, buffer, started, w1)"
  shows "filter is_close (events (pump cfg cs ending (new_writer b x c))) = [if c then CloseFailed else CloseOk]
     \<and> last (events (pump cfg cs ending (new_writer b x c))) = (if c then CloseFailed else CloseOk)
     \<and> (\<forall>msg. r = Some (Raised msg) \<longrightarrow>
           events (pump cfg cs ending (new_writer b x c))
             = events w1
               @ (if budget w1 = Some 0
                  then [WriteFailed (''data: {'' @ [DQ] @ ''error'' @ [DQ] @ '': '' @ [DQ] @ msg @ [DQ] @ ''}'' @ [NL, NL])]
                  else if budget w1 = Some 1
                  then [Wrote (''data: {'' @ [DQ] @ ''error'' @ [DQ] @ '': '' @ [DQ] @ msg @ [DQ] @ ''}'' @ [NL, NL]),
                        WriteFailed (''data: [DONE]'' @ [NL, NL])]
                  else [Wrote (''data: {'' @ [DQ] @ ''error'' @ [DQ] @ '': '' @ [DQ] @ msg @ [DQ] @ ''}'' @ [NL, NL]),
                        Wrote (''data: [DONE]'' @ [NL, NL])])
               @ [if c then CloseFailed else CloseOk])
     \<and> (r = None \<or> r = Some Nullish \<longrightarrow>
           events (pump cfg cs ending (new_writer b x c)) = events w1 @ [if c then CloseFailed else CloseOk])
     \<and> (list_ex is_rejection (events w1) \<longrightarrow> r \<noteq> None)
     \<and> (b = None \<longrightarrow> r = ending)
     \<and> (b = None \<and> ending = None \<longrightarrow>
           events (pump cfg cs ending (new_writer b x c)) = events w1 @ [if c then CloseFailed else CloseOk])
     \<and> (\<forall>msg. b = None \<and> ending = Some (Raised msg) \<longrightarrow>
           events (pump cfg cs ending (new_writer b x c))
             = events w1
               @ [Wrote (''data: {'' @ [DQ] @ ''error'' @ [DQ] @ '': '' @ [DQ] @ msg @ [DQ] @ ''}'' @ [NL, NL]),
                  Wrote (''data: [DONE]'' @ [NL, NL]),
                  if c then CloseFailed else CloseOk])"
proof -
  let ?p = "pump cfg cs ending (new_writer b x c)"
  let ?c = "if c then CloseFailed else CloseOk"
  have fr: "\<And>msg. error_frame msg
              = ''data: {'' @ [DQ] @ ''error'' @ [DQ] @ '': '' @ [DQ] @ msg @ [DQ] @ ''}'' @ [NL, NL]"
    "done_frame = ''data: [DONE]'' @ [NL, NL]"
    by (simp_all add: error_frame_def done_frame_def)
  from read_loop_close[of cfg cs ending b x c] assms
  have k: "filter is_close (events w1) = [] \<and> close_rejects w1 = c" by simp
  have p: "?p = writer_close (case r of None \<Rightarrow> w1 | Some y \<Rightarrow> recover y w1)"
    using assms by (simp add: pump_def split: option.splits)
  have kr: "\<And>y. filter is_close (events (recover y w1)) = [] \<and> close_rejects (recover y w1) = c"
    using recover_close[OF k] by simp
  have a: "filter is_close (events ?p) = [?c] \<and> last (events ?p) = ?c"
    using k kr by (cases r) (simp_all add: p writer_close_def)
  have bb0: "\<forall>msg. r = Some (Raised msg) \<longrightarrow>
           events ?p = events w1
               @ (if budget w1 = Some 0 then [WriteFailed (error_frame msg)]
                  else if budget w1 = Some 1 then [Wrote (error_frame msg), WriteFailed done_frame]
                  else [Wrote (error_frame msg), Wrote done_frame])
               @ [?c]"
    using kr by (simp add: p writer_close_def recover_events)
  have bb: "\<forall>msg. r = Some (Raised msg) \<longrightarrow>
           events ?p = events w1
               @ (if budget w1 = Some 0
                  then [WriteFailed (''data: {'' @ [DQ] @ ''error'' @ [DQ] @ '': '' @ [DQ] @ msg @ [DQ] @ ''}'' @ [NL, NL])]
                  else if budget w1 = Some 1
                  then [Wrote (''data: {'' @ [DQ] @ ''error'' @ [DQ] @ '': '' @ [DQ] @ msg @ [DQ] @ ''}'' @ [NL, NL]),
                        WriteFailed (''data: [DONE]'' @ [NL, NL])]
                  else [Wrote (''data: {'' @ [DQ] @ ''error'' @ [DQ] @ '': '' @ [DQ] @ msg @ [DQ] @ ''}'' @ [NL, NL]),
                        Wrote (''data: [DONE]'' @ [NL, NL])])
               @ [?c]"
    using bb0 by (simp only: fr)
  have cc: "r = None \<or> r = Some Nullish \<longrightarrow> events ?p = events w1 @ [?c]"
    using k by (auto simp: p writer_close_def recover_nullish)
  have dd: "list_ex is_rejection (events w1) \<longrightarrow> r \<noteq> None"
    using read_loop_raises[of "new_writer b x c" cfg cs ending "[]" False] assms
    by (auto simp: new_writer_def)
  have ee: "b = None \<longrightarrow> r = ending"
    using read_loop_unbounded[of "new_writer b x c" cfg cs ending "[]" False] assms
    by (auto simp: new_writer_def)
  have nb: "b = None \<longrightarrow> budget w1 = None"
    using read_loop_keeps_unbounded[of "new_writer b x c" cfg cs ending "[]" False] assms
    by (auto simp: new_writer_def)
  have ff: "\<forall>msg. b = None \<and> ending = Some (Raised msg) \<longrightarrow>
           events ?p = events w1
               @ [Wrote (''data: {'' @ [DQ] @ ''error'' @ [DQ] @ '': '' @ [DQ] @ msg @ [DQ] @ ''}'' @ [NL, NL]),
                  Wrote (''data: [DONE]'' @ [NL, NL]), ?c]"
    using bb ee nb by auto
  have gg: "b = None \<and> ending = None \<longrightarrow> events ?p = events w1 @ [?c]"
    using cc ee by blast
  from a bb cc dd ee ff gg show ?thesis by blast
qed

theorem cleanup_witness:
  "events (pump sample_config [''data: {}'' @ [NL, NL]] (Some (Raised ''boom''))
             (new_writer (Some 2) (Raised ''gone'') True))
     = [Wrote (''data: {}'' @ [NL, NL]),
        Wrote (''data: {'' @ [DQ] @ ''error'' @ [DQ] @ '': '' @ [DQ] @ ''boom'' @ [DQ] @ ''}'' @ [NL, NL]),
        WriteFailed (''data: [DONE]'' @ [NL, NL]), CloseFailed]
   \<and> events (pump sample_config [''data: {}'' @ [NL, NL]] None (new_writer (Some 0) (Raised ''gone'') False))
     = [WriteFailed (''data: {}'' @ [NL, NL]), WriteFailed (''data: {}'' @ [NL, NL]),
        WriteFailed (''data: {'' @ [DQ] @ ''error'' @ [DQ] @ '': '' @ [DQ] @ ''gone'' @ [DQ] @ ''}'' @ [NL, NL]),
        CloseOk]"
proof -
  have r1: "read_loop sample_config [''data: {}'' @ [NL, NL]] (Some (Raised ''boom''))
              ([], False, new_writer (Some 2) (Raised ''gone'') True)
            = (Some (Raised ''boom''), [], False,
               \<lparr>budget = Some 1, reason = Raised ''gone'', close_rejects = True,
                events = [Wrote (''data: {}'' @ [NL, NL])]\<rparr>)"
    by (simp add: run_defs)
  have r2: "read_loop sample_config [''data: {}'' @ [NL, NL]] None
              ([], False, new_writer (Some 0) (Raised ''gone'') False)
            = (Some (Raised ''gone''), [], False,
               \<lparr>budget = Some 0, reason = Raised ''gone'', close_rejects = False,
                events = [WriteFailed (''data: {}'' @ [NL, NL]), WriteFailed (''data: {}'' @ [NL, NL])]\<rparr>)"
    by (simp add: run_defs)
  from cleanup[OF r1] cleanup[OF r2] show ?thesis
    by simp
qed

text \<open>
  A line whose JSON does not parse: the exception is caught for the line, which is
  forwarded, and no diagnostic frame is written.  A read that fails with undefined:
  nothing is written before the close.
\<close>

theorem cleanup_counterexample:
  "events (pump sample_config [''data: {bad'' @ [NL]] None (new_writer None (Raised []) False))
     = [Wrote (''data: {bad'' @ [NL, NL]), Wrote (''data: [DONE]'' @ [NL, NL]), CloseOk]
   \<and> events (pump sample_config [] (Some Nullish) (new_writer None (Raised []) False))
     = [CloseOk]"
  by (simp add: run_defs)

section \<open>Claims about the request and the upstream failure\<close>

text \<open>
  Claim C9, as the code has it.  When the upstream call answers with a status that is
  not 2xx: for a status from 300 to 599 other than 304 the caller gets an error response
  with that status, whose message is the upstream body text when that text is not empty
  and the fixed text \<open>NIM API error - check if your API key is valid\<close> when it is,
  and whose code is the status; for any other status (304, below 200, above 599) the
  Response cannot be built with that status, its constructor raises, and the caller
  gets the endpoint's status 500 response instead.
\<close>

theorem upstream_failure_response:
  assumes "\<not> response_ok st"
  shows "(300 \<le> st \<and> st \<le> 599 \<and> st \<noteq> 304 \<longrightarrow>
            (\<exists>r. upstream_failure st txt = Some (Inr r) \<and> failure_reply message_of st txt = Some r
               \<and> status r = st
               \<and> error_message r =
                   JStr (if txt = [] then ''NIM API error - check if your API key is valid'' else txt)
               \<and> field (field (body r) ''error'') ''code'' = JNum (dec st)))
     \<and> (st < 200 \<or> 599 < st \<longrightarrow>
            upstream_failure st txt = Some (Inl RangeError)
            \<and> (\<exists>r. failure_reply message_of st txt = Some r \<and> status r = 500))
     \<and> (st = 304 \<longrightarrow>
            upstream_failure st txt = Some (Inl TypeError)
            \<and> (\<exists>r. failure_reply message_of st txt = Some r \<and> status r = 500))"
  using assms
  by (auto simp: upstream_failure_def new_Response_def js_or_def error_message_def response_ok_def
      null_body_status_def failure_reply_def caught_response_def)

theorem upstream_failure_response_witness:
  "(\<exists>r. upstream_failure 404 ''no such model'' = Some (Inr r) \<and> status r = 404
       \<and> error_message r = JStr ''no such model''
       \<and> field (field (body r) ''error'') ''code'' = JNum ''404'')
   \<and> upstream_failure 304 ''x'' = Some (Inl TypeError)
   \<and> upstream_failure 999 ''x'' = Some (Inl RangeError)"
proof -
  have n: "\<not> response_ok 404" "\<not> response_ok 304" "\<not> response_ok 999"
    by (simp_all add: response_ok_def)
  from upstream_failure_response[OF n(1), of "''no such model''" "\<lambda>e. []"]
  have a: "\<exists>r. upstream_failure 404 ''no such model'' = Some (Inr r) \<and> status r = 404
       \<and> error_message r = JStr ''no such model''
       \<and> field (field (body r) ''error'') ''code'' = JNum ''404''"
    by auto
  from upstream_failure_response[OF n(2), of "''x''" "\<lambda>e. []"]
  have b: "upstream_failure 304 ''x'' = Some (Inl TypeError)" by simp
  from upstream_failure_response[OF n(3), of "''x''" "\<lambda>e. []"]
  have c: "upstream_failure 999 ''x'' = Some (Inl RangeError)" by simp
  from a b c show ?thesis by blast
qed

text \<open>
  An upstream failure with an empty body: the message is the fixed text, not the body.
  An upstream status 304: no response with that status is built.
\<close>

theorem upstream_failure_empty_body_counterexample:
  "upstream_failure 500 [] = Some (Inr \<lparr>status = 500,
      headers = corsHeaders @ [(''Content-Type'', ''application/json'')],
      body = JObj [(''error'', JObj [(''message'', JStr ''NIM API error - check if your API key is valid''),
                 (''type'', JStr ''api_error''), (''code'', JNum ''500'')])]\<rparr>)
   \<and> upstream_failure 304 ''not modified'' = Some (Inl TypeError)"
  by (simp add: upstream_failure_def response_ok_def new_Response_def null_body_status_def js_or_def)

text \<open>
  Claim C10.  In the request sent upstream, a temperature that is missing or falsy is
  replaced by 0.6 and a max_tokens that is missing or falsy by 9024; a temperature of 0
  or a max_tokens of 0 given by the client is replaced too.
\<close>

theorem nim_request_defaults:
  assumes "b \<noteq> JNull" "b \<noteq> Undefined"
  shows "\<exists>req. build_nim_request b = Inr req
     \<and> field req ''temperature'' =
         (if truthy (field b ''temperature'') then field b ''temperature'' else JNum ''0.6'')
     \<and> field req ''max_tokens'' =
         (if truthy (field b ''max_tokens'') then field b ''max_tokens'' else JNum ''9024'')
     \<and> (field b ''temperature'' = JNum ''0'' \<longrightarrow> field req ''temperature'' = JNum ''0.6'')
     \<and> (field b ''max_tokens'' = JNum ''0'' \<longrightarrow> field req ''max_tokens'' = JNum ''9024'')"
  using assms by (simp add: build_nim_request_def js_or_def del: field.simps) (simp)

theorem nim_request_defaults_witness:
  "\<exists>req. build_nim_request (JObj [(''temperature'', JNum ''0''), (''max_tokens'', JNum ''0'')]) = Inr req
     \<and> field req ''temperature'' = JNum ''0.6''
     \<and> field req ''max_tokens'' = JNum ''9024''"
  using nim_request_defaults[of "JObj [(''temperature'', JNum ''0''), (''max_tokens'', JNum ''0'')]"]
  by auto

end
